theory Spec2Isabelle
  imports
    Complex_Main
    "HOL-Library.AList"
    "HOL-Library.Multiset"
    "HOL-Library.Char_ord"
    "HOL-Library.List_Lexorder"
begin

section \<open>Bigram vocabulary construction and encoding\<close>

text \<open>
  A shallow embedding of \<^verbatim>\<open>deprecated/generate_bigram_repr.py\<close> and of
  \<^verbatim>\<open>load_id_to_label\<close> in \<^verbatim>\<open>bigram_based_models.py\<close>.

  Conventions:
  \<^item> a Python \<^verbatim>\<open>str\<close> is a \<open>string\<close>; every \<open>char\<close> stands for one character
    of the Python string;
  \<^item> a Python \<^verbatim>\<open>dict\<close> is an association list in insertion order whose keys are
    pairwise distinct; \<open>map_of\<close> is the lookup, \<open>AList.update\<close> the item assignment
    and \<open>length\<close> is \<^verbatim>\<open>len\<close>;
  \<^item> a row delivered by \<^verbatim>\<open>csv.reader\<close> is a \<open>string list\<close>;
  \<^item> an exception that leaves a function is a value \<open>Inl e\<close> of the result.
\<close>

subsection \<open>Errors and Python primitives\<close>

datatype error =
    IndexError
  | UnboundLocalError
  | TypeError
  | FileNotFoundError
  | JSONDecodeError
  | Unsupported
  | Breakpoint
  | Exception string

type_synonym ('k, 'v) dict = "('k \<times> 'v) list"

text \<open>Python list indexing \<^verbatim>\<open>xs[i]\<close>: a negative index counts from the end, an index
  outside \<open>[-len, len)\<close> raises \<^verbatim>\<open>IndexError\<close>.\<close>

definition py_index :: "'a list \<Rightarrow> int \<Rightarrow> error + 'a" where
  "py_index xs i =
     (if 0 \<le> i \<and> i < int (length xs) then Inr (xs ! nat i)
      else if i < 0 \<and> - int (length xs) \<le> i then Inr (xs ! nat (int (length xs) + i))
      else Inl IndexError)"

text \<open>\<^verbatim>\<open>sorted(values, reverse=True)\<close>.\<close>

definition sorted_reverse :: "'a::linorder list \<Rightarrow> 'a list" where
  "sorted_reverse xs = rev (sort xs)"

subsection \<open>TopNSelector: \<^verbatim>\<open>get_top_n\<close>\<close>

text \<open>
  \<^verbatim>\<open>
  def get_top_n(bigram_counts, n):
      counts = sorted(bigram_counts.values(), reverse=True)
      threshold = counts[n-1]
      return {bigram: count for bigram, count in bigram_counts.items() if count >= threshold}
  \<close>
\<close>

definition get_top_n :: "('k, 'c::linorder) dict \<Rightarrow> int \<Rightarrow> error + ('k, 'c) dict" where
  "get_top_n bigram_counts n =
     (let counts = sorted_reverse (map snd bigram_counts)
      in case py_index counts (n - 1) of
           Inl e \<Rightarrow> Inl e
         | Inr threshold \<Rightarrow>
             Inr (filter (\<lambda>(bigram, count). count \<ge> threshold) bigram_counts))"

text \<open>
  The selector's contract in the words of the specification: \<open>t\<close> is the \<open>n\<close>-th largest
  value of \<open>cs\<close>, duplicates allowed, when it occurs in \<open>cs\<close>, fewer than \<open>n\<close> entries are
  strictly larger and at least \<open>n\<close> entries are at least \<open>t\<close>.
\<close>

definition nth_largest :: "'c::linorder list \<Rightarrow> nat \<Rightarrow> 'c \<Rightarrow> bool" where
  "nth_largest cs n t \<longleftrightarrow>
     t \<in> set cs \<and> length (filter (\<lambda>c. t < c) cs) < n \<and> n \<le> length (filter (\<lambda>c. t \<le> c) cs)"

subsection \<open>Corpus rows\<close>

text \<open>
  Both readers of the corpus unpack a row into seven names,
  \<^verbatim>\<open>text_id, text, masked, label_binary, label_ternary, label_finegrained, source = line\<close>,
  which raises \<^verbatim>\<open>ValueError\<close>, binding nothing, unless the row has exactly seven fields.
  The field \<open>text'\<close> is the source's \<^verbatim>\<open>text\<close>.
\<close>

record corpus_row =
  text_id :: string
  text' :: string
  masked :: string
  label_binary :: string
  label_ternary :: string
  label_finegrained :: string
  source :: string

definition unpack_row :: "string list \<Rightarrow> corpus_row option" where
  "unpack_row line =
     (case line of
        [a, b, c, d, e, f, g] \<Rightarrow>
          Some \<lparr>text_id = a, text' = b, masked = c, label_binary = d, label_ternary = e,
                label_finegrained = f, source = g\<rparr>
      | _ \<Rightarrow> None)"

definition placeholder :: "string list" where
  "placeholder = [''Place for parser output'']"

text \<open>\<^verbatim>\<open>[''.join(bi) for bi in zip(text, text[1:])]\<close>\<close>

definition bigrams :: "string \<Rightarrow> string list" where
  "bigrams t = map (\<lambda>(a, b). [a, b]) (zip t (drop 1 t))"

subsection \<open>BigramCounter: \<^verbatim>\<open>count_bigrams\<close>\<close>






subsection \<open>VocabularyBuilder: \<^verbatim>\<open>get_bigram_to_dim_mapping\<close>\<close>

text \<open>
  \<^verbatim>\<open>
  mapping = {}
  i = 0
  all_bigrams = set(top_n_ch.keys()).union(set(top_n_other.keys()))
  for bigram in all_bigrams:
      mapping[bigram] = i
      i += 1
  return mapping
  \<close>
  Python does not fix the order in which a \<^verbatim>\<open>set\<close> of strings is iterated (it follows
  the strings' hashes, which are salted per process): the order is the parameter
  \<open>iter\<close>, which lists every element of the set once.
\<close>

fun assign_dims :: "string list \<Rightarrow> int \<Rightarrow> (string, int) dict \<Rightarrow> (string, int) dict" where
  "assign_dims [] i mapping = mapping"
| "assign_dims (bigram # rest) i mapping =
     assign_dims rest (i + 1) (AList.update bigram i mapping)"

definition get_bigram_to_dim_mapping ::
  "(string set \<Rightarrow> string list) \<Rightarrow> (string, 'c) dict \<Rightarrow> (string, 'c) dict \<Rightarrow> (string, int) dict" where
  "get_bigram_to_dim_mapping iter top_n_ch top_n_other =
     (let all_bigrams = set (map fst top_n_ch) \<union> set (map fst top_n_other)
      in assign_dims (iter all_bigrams) 0 [])"

definition set_iteration :: "(string set \<Rightarrow> string list) \<Rightarrow> string set \<Rightarrow> bool" where
  "set_iteration iter S \<longleftrightarrow> set (iter S) = S \<and> distinct (iter S)"

text \<open>
  The index assignment in the words of the specification: the union is sorted
  lexicographically and the indices \<open>0..D-1\<close> are assigned in that order.
\<close>

definition sorted_index_assignment ::
  "(string, 'c) dict \<Rightarrow> (string, 'c) dict \<Rightarrow> (string, int) dict" where
  "sorted_index_assignment top_n_ch top_n_other =
     (let ordered = sorted_list_of_set (set (map fst top_n_ch) \<union> set (map fst top_n_other))
      in zip ordered (map int [0..<length ordered]))"

text \<open>Two iteration orders of a set: ascending and descending.\<close>

definition ascending :: "string set \<Rightarrow> string list" where
  "ascending S = sorted_list_of_set S"

definition descending :: "string set \<Rightarrow> string list" where
  "descending S = rev (sorted_list_of_set S)"

subsection \<open>Files\<close>

text \<open>
  The file system maps a path to the text of the file stored there. Opening a path
  that is not in the map for reading raises \<^verbatim>\<open>FileNotFoundError\<close>; opening a path with
  mode \<^verbatim>\<open>'w'\<close> creates the file or empties it. \<^verbatim>\<open>csv.reader\<close> belongs to Python's
  standard library and is a parameter: it turns the text of a file into its rows.
\<close>

type_synonym files = "string \<rightharpoonup> string"

subsection \<open>Encoder: \<^verbatim>\<open>gen_bigram_repr\<close>\<close>

text \<open>
  \<^verbatim>\<open>
  ohe = np.zeros(num_dims)
  bigrams = [''.join(bi) for bi in zip(text, text[1:])]
  for bigram in bigrams:
      if bigram in mapping:
          ohe[mapping[bigram]] += 1
  \<close>
  \<^verbatim>\<open>ohe\<close> is a numpy array of \<^verbatim>\<open>num_dims\<close> floats that only ever hold counts; the
  model keeps them as natural numbers. Indexing an array of length \<open>n\<close> with \<open>j\<close>
  reaches position \<open>j\<close> for \<open>0 \<le> j < n\<close>, position \<open>n + j\<close> for \<open>-n \<le> j < 0\<close> and raises
  \<^verbatim>\<open>IndexError\<close> otherwise.
\<close>

definition np_position :: "nat \<Rightarrow> int \<Rightarrow> nat option" where
  "np_position n j =
     (if 0 \<le> j \<and> j < int n then Some (nat j)
      else if - int n \<le> j \<and> j < 0 then Some (nat (int n + j))
      else None)"

fun count_hits :: "(string, int) dict \<Rightarrow> string list \<Rightarrow> nat list \<Rightarrow> error + nat list" where
  "count_hits mapping [] ohe = Inr ohe"
| "count_hits mapping (bigram # rest) ohe =
     (case map_of mapping bigram of
        None \<Rightarrow> count_hits mapping rest ohe
      | Some j \<Rightarrow>
          (case np_position (length ohe) j of
             None \<Rightarrow> Inl IndexError
           | Some k \<Rightarrow> count_hits mapping rest (ohe[k := ohe ! k + 1])))"

definition encode_text :: "(string, int) dict \<Rightarrow> string \<Rightarrow> error + nat list" where
  "encode_text mapping t =
     (let num_dims = length mapping
      in count_hits mapping (bigrams t) (replicate num_dims 0))"

text \<open>\<^verbatim>\<open>str(int(value))\<close> of a count: its decimal digits.\<close>

definition digit :: "nat \<Rightarrow> char" where
  "digit d = ''0123456789'' ! d"

fun str_nat :: "nat \<Rightarrow> string" where
  "str_nat n = (if n < 10 then [digit n] else str_nat (n div 10) @ [digit (n mod 10)])"

declare str_nat.simps [simp del]

text \<open>\<^verbatim>\<open>sep.join(items)\<close>\<close>

fun join :: "string \<Rightarrow> string list \<Rightarrow> string" where
  "join sep [] = []"
| "join sep [x] = x"
| "join sep (x # y # ys) = x @ sep @ join sep (y # ys)"

text \<open>
  \<^verbatim>\<open>
  ', '.join([text_id] + [label_binary] + [label_ternary] + [label_finegrained] +
            [str(int(value)) for value in ohe])
  \<close>
\<close>

definition repr_fields :: "corpus_row \<Rightarrow> nat list \<Rightarrow> string list" where
  "repr_fields r ohe =
     [text_id r] @ [label_binary r] @ [label_ternary r] @ [label_finegrained r] @ map str_nat ohe"

definition repr_line :: "corpus_row \<Rightarrow> nat list \<Rightarrow> string" where
  "repr_line r ohe = join '', '' (repr_fields r ohe)"

text \<open>
  \<^verbatim>\<open>
  write_list = []
  for i, line in enumerate(csv_reader):
      try:
          text_id, text, masked, label_binary, label_ternary, label_finegrained, source = line
      except ValueError:
          if line == ['Place for parser output']:
              continue
          else:
              import pdb; pdb.set_trace()
      ohe = ...
      if i % 10000 == 0 and len(write_list) != 0:
          fout.write('\n'.join(write_list))
          write_list = []
      else:
          write_list.append(', '.join(...))
      if int(i) % 10000 == 0:
          print("Processed line {}.".format(i))
  \<close>
  The state of the loop is the buffer \<^verbatim>\<open>write_list\<close> and the text written to
  \<^verbatim>\<open>fout\<close> so far. The progress message goes to the terminal and is left out.
  The function ends with the loop: nothing follows it.
\<close>

record gen_state =
  write_list :: "string list"
  written :: string

definition gen_step :: "(string, int) dict \<Rightarrow> nat \<times> string list \<Rightarrow> gen_state \<Rightarrow> error + gen_state" where
  "gen_step mapping il s =
     (case il of (i, line) \<Rightarrow>
        (case unpack_row line of
           None \<Rightarrow> if line = placeholder then Inr s else Inl Breakpoint
         | Some r \<Rightarrow>
             (case encode_text mapping (text' r) of
                Inl e \<Rightarrow> Inl e
              | Inr ohe \<Rightarrow>
                  if i mod 10000 = 0 \<and> length (write_list s) \<noteq> 0
                  then Inr (s\<lparr>written := written s @ join ''\<newline>'' (write_list s),
                              write_list := []\<rparr>)
                  else Inr (s\<lparr>write_list := write_list s @ [repr_line r ohe]\<rparr>))))"

text \<open>The loop gives the state it stopped in, and the exception that stopped it if any.\<close>

fun gen_loop ::
  "(string, int) dict \<Rightarrow> (nat \<times> string list) list \<Rightarrow> gen_state \<Rightarrow> gen_state \<times> error option" where
  "gen_loop mapping [] s = (s, None)"
| "gen_loop mapping (il # rest) s =
     (case gen_step mapping il s of
        Inl e \<Rightarrow> (s, Some e)
      | Inr s' \<Rightarrow> gen_loop mapping rest s')"

definition encode_rows :: "(string, int) dict \<Rightarrow> string list list \<Rightarrow> gen_state \<times> error option" where
  "encode_rows mapping rows = gen_loop mapping (enumerate 0 rows) \<lparr>write_list = [], written = []\<rparr>"

text \<open>
  \<^verbatim>\<open>
  if not os.path.exists(path_mapping):
      raise Exception('Bigram-to-dim-mapping not found. Please generate the mapping first!')
  with open(path_mapping, 'r', encoding='utf8') as f:
      mapping = json.load(f)
  \<close>
  \<^verbatim>\<open>json.load\<close> is the parameter \<open>json_load\<close>, from the text of the file.
\<close>

definition load_mapping ::
  "(string \<Rightarrow> error + (string, int) dict) \<Rightarrow> files \<Rightarrow> string \<Rightarrow> error + (string, int) dict" where
  "load_mapping json_load fs path_mapping =
     (case fs path_mapping of
        None \<Rightarrow> Inl (Exception ''Bigram-to-dim-mapping not found. Please generate the mapping first!'')
      | Some contents \<Rightarrow> json_load contents)"

text \<open>
  The whole function: the mapping is loaded, then \<^verbatim>\<open>path_in\<close> is opened for reading,
  then \<^verbatim>\<open>path_out\<close> for writing, then the rows are read and encoded. The result is
  the outcome (\<open>Inl\<close> the exception raised) and the file system left behind.
\<close>

definition gen_bigram_repr ::
  "(string \<Rightarrow> string list list) \<Rightarrow> (string \<Rightarrow> error + (string, int) dict) \<Rightarrow>
   files \<Rightarrow> string \<Rightarrow> string \<Rightarrow> string \<Rightarrow> (error + unit) \<times> files" where
  "gen_bigram_repr csv_reader json_load fs path_in path_out path_mapping =
     (case load_mapping json_load fs path_mapping of
        Inl e \<Rightarrow> (Inl e, fs)
      | Inr mapping \<Rightarrow>
          (case fs path_in of
             None \<Rightarrow> (Inl FileNotFoundError, fs)
           | Some _ \<Rightarrow>
               (let opened = fs(path_out \<mapsto> []);
                    rows = csv_reader (case opened path_in of None \<Rightarrow> [] | Some contents \<Rightarrow> contents);
                    done = encode_rows mapping rows
                in (case snd done of None \<Rightarrow> Inr () | Some e \<Rightarrow> Inl e,
                    opened(path_out \<mapsto> written (fst done))))))"

subsection \<open>MappingStore: \<^verbatim>\<open>dump_bigram_to_dim_mapping\<close>\<close>

text \<open>
  \<^verbatim>\<open>
  with open(path_out, 'w', encoding='utf8') as f:
      json.dump(bigram_to_dim_mapping, f)
  \<close>
  \<^verbatim>\<open>json.dump\<close> is the parameter \<open>json_dump\<close>, to the text of the file.
\<close>

definition dump_bigram_to_dim_mapping ::
  "((string, int) dict \<Rightarrow> string) \<Rightarrow> (string, int) dict \<Rightarrow> string \<Rightarrow> files \<Rightarrow> files" where
  "dump_bigram_to_dim_mapping json_dump bigram_to_dim_mapping path_out fs =
     fs(path_out \<mapsto> json_dump bigram_to_dim_mapping)"

subsection \<open>RepresentationLoader: \<^verbatim>\<open>load_id_to_label\<close>\<close>

text \<open>
  \<^verbatim>\<open>
  id_to_label = {}
  num_zeros = 0
  num_ones = 0
  goal = limit / 2
  line_counter = 0
  with open(path, 'r', encoding='utf8') as f:
      csv_reader = csv.reader(f)
      for row in csv_reader:
          if num_ones >= goal and num_zeros >= goal:
              break
          try:
              text_id, text, masked, label, corpus = row
          except ValueError:
              continue
          if label == 0 and num_zeros >= goal:
              continue
          if label == 1 and num_ones >= goal:
              continue
          id_to_label[text_id] = label
          line_counter += 1
  return id_to_label
  \<close>
  \<^verbatim>\<open>limit / 2\<close> is Python's true division, a rational here; with the default
  \<^verbatim>\<open>limit=None\<close> it raises \<^verbatim>\<open>TypeError\<close>. \<^verbatim>\<open>label\<close> is a field of a csv row, a
  \<^verbatim>\<open>str\<close>, and \<^verbatim>\<open>label == 0\<close> compares it with an \<^verbatim>\<open>int\<close>: in Python a \<^verbatim>\<open>str\<close> and
  an \<^verbatim>\<open>int\<close> are never equal. \<open>load_id_to_label\<close> takes the rows that
  \<^verbatim>\<open>csv.reader\<close> delivers for \<^verbatim>\<open>path\<close>.
\<close>

definition str_eq_int :: "string \<Rightarrow> int \<Rightarrow> bool" where
  "str_eq_int s i = False"

record load_state =
  id_to_label :: "(string, string) dict"
  num_zeros :: int
  num_ones :: int
  line_counter :: int

definition unpack_label_row :: "string list \<Rightarrow> (string \<times> string \<times> string \<times> string \<times> string) option" where
  "unpack_label_row row =
     (case row of [a, b, c, d, e] \<Rightarrow> Some (a, b, c, d, e) | _ \<Rightarrow> None)"

fun load_loop :: "rat \<Rightarrow> string list list \<Rightarrow> load_state \<Rightarrow> load_state" where
  "load_loop goal [] s = s"
| "load_loop goal (row # rest) s =
     (if of_int (num_ones s) \<ge> goal \<and> of_int (num_zeros s) \<ge> goal then s
      else (case unpack_label_row row of
              None \<Rightarrow> load_loop goal rest s
            | Some (tid, txt, msk, label, corpus) \<Rightarrow>
                if str_eq_int label 0 \<and> of_int (num_zeros s) \<ge> goal then load_loop goal rest s
                else if str_eq_int label 1 \<and> of_int (num_ones s) \<ge> goal then load_loop goal rest s
                else load_loop goal rest
                       (s\<lparr>id_to_label := AList.update tid label (id_to_label s),
                          line_counter := line_counter s + 1\<rparr>)))"

definition load_id_to_label :: "string list list \<Rightarrow> int option \<Rightarrow> error + (string, string) dict" where
  "load_id_to_label rows limit =
     (case limit of
        None \<Rightarrow> Inl TypeError
      | Some l \<Rightarrow>
          Inr (id_to_label
                 (load_loop (of_int l / 2) rows
                    \<lparr>id_to_label = [], num_zeros = 0, num_ones = 0, line_counter = 0\<rparr>)))"

text \<open>The number of accepted ids of a class, and the quota \<open>ceil(L/2)\<close> of the specification.\<close>

definition accepted :: "string \<Rightarrow> (string, string) dict \<Rightarrow> nat" where
  "accepted label d = length (filter (\<lambda>(tid, l). l = label) d)"

definition quota :: "int \<Rightarrow> int" where
  "quota l = \<lceil>of_int l / (2::rat)\<rceil>"

subsection \<open>Vocabulary mappings\<close>

text \<open>
  The specification's invariant of a vocabulary mapping of size \<open>D\<close>: every index lies in
  \<open>[0, D)\<close>. \<open>indexable\<close> is the weaker condition under which numpy raises no
  \<^verbatim>\<open>IndexError\<close>: every index lies in \<open>[-D, D)\<close>. \<open>hits mapping bs j\<close> is the number of
  bigrams in \<open>bs\<close> that the mapping sends to index \<open>j\<close>.
\<close>

definition valid_indices :: "(string, int) dict \<Rightarrow> bool" where
  "valid_indices mapping = list_all (\<lambda>(bigram, j). 0 \<le> j \<and> j < int (length mapping)) mapping"

definition indexable :: "(string, int) dict \<Rightarrow> bool" where
  "indexable mapping =
     list_all (\<lambda>(bigram, j). - int (length mapping) \<le> j \<and> j < int (length mapping)) mapping"

definition hits :: "(string, int) dict \<Rightarrow> string list \<Rightarrow> nat \<Rightarrow> nat" where
  "hits mapping bs j = length (filter (\<lambda>bigram. map_of mapping bigram = Some (int j)) bs)"

text \<open>What one label row does to \<^verbatim>\<open>id_to_label\<close> when it is accepted.\<close>

definition accept_row :: "(string, string) dict \<Rightarrow> string list \<Rightarrow> (string, string) dict" where
  "accept_row d row =
     (case unpack_label_row row of
        None \<Rightarrow> d
      | Some (tid, txt, msk, label, corpus) \<Rightarrow> AList.update tid label d)"

subsection \<open>Reading the counts\<close>



subsection \<open>The mapping file: Python's \<^verbatim>\<open>json\<close> module on \<^verbatim>\<open>dict[str, int]\<close>\<close>

text \<open>
  \<^verbatim>\<open>json.dump\<close> and \<^verbatim>\<open>json.load\<close> belong to Python's standard library. For the
  round trip of the mapping file they are modelled on the values the repository
  stores, a \<^verbatim>\<open>dict\<close> from \<^verbatim>\<open>str\<close> to \<^verbatim>\<open>int\<close>.

  \<open>json_dumps\<close> is \<^verbatim>\<open>json.dump\<close> with its default arguments: the items in the
  dictionary's order as \<^verbatim>\<open>"key": value\<close>, separated by \<^verbatim>\<open>", "\<close>, in braces; a key
  is written by \<^verbatim>\<open>encode_basestring_ascii\<close> (\<^verbatim>\<open>ensure_ascii=True\<close>): the two-character
  escapes for the quote, the backslash and \<^verbatim>\<open>\n \r \t \b \f\<close>, the characters from the
  space to \<^verbatim>\<open>~\<close> as they are, every other character as \<^verbatim>\<open>\uXXXX\<close> with four lower
  case hexadecimal digits; a value is written in decimal.
\<close>

definition dquote :: char where "dquote = CHR 0x22"
definition backslash :: char where "backslash = CHR 0x5C"

definition hex_digit :: "nat \<Rightarrow> char" where
  "hex_digit d = ''0123456789abcdef'' ! d"

definition escape_char :: "char \<Rightarrow> string" where
  "escape_char c =
     (if c = dquote then [backslash, dquote]
      else if c = backslash then [backslash, backslash]
      else if c = CHR 0x0A then [backslash, CHR ''n'']
      else if c = CHR 0x0D then [backslash, CHR ''r'']
      else if c = CHR 0x09 then [backslash, CHR ''t'']
      else if c = CHR 0x08 then [backslash, CHR ''b'']
      else if c = CHR 0x0C then [backslash, CHR ''f'']
      else if 0x20 \<le> (of_char c :: nat) \<and> (of_char c :: nat) \<le> 0x7E then [c]
      else (let n = (of_char c :: nat)
            in [backslash, CHR ''u'', hex_digit (n div 4096), hex_digit (n div 256 mod 16),
                hex_digit (n div 16 mod 16), hex_digit (n mod 16)]))"

definition encode_basestring_ascii :: "string \<Rightarrow> string" where
  "encode_basestring_ascii s = [dquote] @ concat (map escape_char s) @ [dquote]"

definition str_int :: "int \<Rightarrow> string" where
  "str_int i = (if i < 0 then CHR ''-'' # str_nat (nat (- i)) else str_nat (nat i))"

definition json_item :: "string \<times> int \<Rightarrow> string" where
  "json_item kv = encode_basestring_ascii (fst kv) @ '': '' @ str_int (snd kv)"

definition json_dumps :: "(string, int) dict \<Rightarrow> string" where
  "json_dumps d = ''{'' @ join '', '' (map json_item d) @ ''}''"

text \<open>
  \<open>json_loads\<close> is \<^verbatim>\<open>json.load\<close> on the text of the file: white space is skipped
  around every token, \<open>scanstring\<close> is \<^verbatim>\<open>py_scanstring\<close> in strict mode (a control
  character inside a string is an error), a number is read by the pattern
  \<^verbatim>\<open>(-?(?:0|[1-9][0-9]*))(\.[0-9]+)?([eE][-+]?[0-9]+)?\<close> and is an \<^verbatim>\<open>int\<close> when it has
  neither fraction nor exponent, \<open>members\<close> is the loop of \<^verbatim>\<open>JSONObject\<close> and the
  pairs are turned into a dictionary by \<^verbatim>\<open>dict(pairs)\<close>, a later pair replacing an earlier
  one with the same key. A text outside the fragment, whose top-level value is not an
  object, whose values are not integers or whose keys hold characters beyond the 256
  of \<open>char\<close>, yields \<open>Unsupported\<close>.
\<close>

definition is_ws :: "char \<Rightarrow> bool" where
  "is_ws c \<longleftrightarrow> c = CHR '' '' \<or> c = CHR 0x09 \<or> c = CHR 0x0A \<or> c = CHR 0x0D"

definition skip_ws :: "string \<Rightarrow> string" where
  "skip_ws s = dropWhile is_ws s"

definition is_digit :: "char \<Rightarrow> bool" where
  "is_digit c \<longleftrightarrow> 0x30 \<le> (of_char c :: nat) \<and> (of_char c :: nat) \<le> 0x39"

definition hex_val :: "char \<Rightarrow> nat option" where
  "hex_val c =
     (let n = (of_char c :: nat)
      in if 0x30 \<le> n \<and> n \<le> 0x39 then Some (n - 0x30)
         else if 0x61 \<le> n \<and> n \<le> 0x66 then Some (n - 0x57)
         else if 0x41 \<le> n \<and> n \<le> 0x46 then Some (n - 0x37)
         else None)"

definition decode_uXXXX :: "string \<Rightarrow> nat option" where
  "decode_uXXXX s =
     (case map hex_val (take 4 s) of
        [Some a, Some b, Some c, Some d] \<Rightarrow> Some (((a * 16 + b) * 16 + c) * 16 + d)
      | _ \<Rightarrow> None)"

definition unescape :: "char \<Rightarrow> char option" where
  "unescape e =
     (if e = dquote then Some dquote
      else if e = backslash then Some backslash
      else if e = CHR ''/'' then Some (CHR ''/'')
      else if e = CHR ''b'' then Some (CHR 0x08)
      else if e = CHR ''f'' then Some (CHR 0x0C)
      else if e = CHR ''n'' then Some (CHR 0x0A)
      else if e = CHR ''r'' then Some (CHR 0x0D)
      else if e = CHR ''t'' then Some (CHR 0x09)
      else None)"

definition prepend :: "char \<Rightarrow> error + string \<times> string \<Rightarrow> error + string \<times> string" where
  "prepend c r = (case r of Inl e \<Rightarrow> Inl e | Inr (s, rest) \<Rightarrow> Inr (c # s, rest))"

function scanstring :: "string \<Rightarrow> error + string \<times> string" where
  "scanstring [] = Inl JSONDecodeError"
| "scanstring (c # cs) =
     (if c = dquote then Inr ([], cs)
      else if c = backslash then
        (case cs of
           [] \<Rightarrow> Inl JSONDecodeError
         | e # rest \<Rightarrow>
             if e = CHR ''u'' then
               (case decode_uXXXX rest of
                  None \<Rightarrow> Inl JSONDecodeError
                | Some n \<Rightarrow>
                    if n < 256 then prepend (char_of n) (scanstring (drop 4 rest))
                    else Inl Unsupported)
             else
               (case unescape e of
                  None \<Rightarrow> Inl JSONDecodeError
                | Some ch \<Rightarrow> prepend ch (scanstring rest)))
      else if (of_char c :: nat) < 0x20 then Inl JSONDecodeError
      else prepend c (scanstring cs))"
  by pat_completeness auto
termination
  by (relation "measure length") auto

declare scanstring.simps [simp del]

text \<open>The scanner consumes at least the closing quote (needed for the termination of \<open>members\<close>).\<close>

lemma prepend_shorter:
  "prepend c r = Inr (s, rest) \<Longrightarrow> \<exists>s'. r = Inr (s', rest)"
  by (auto simp: prepend_def split: sum.splits)

lemma scanstring_shorter: "scanstring s = Inr (k, r) \<Longrightarrow> length r < length s"
proof (induction s arbitrary: k rule: scanstring.induct)
  case 1
  then show ?case by (simp add: scanstring.simps)
next
  case (2 c cs)
  show ?case
  proof (cases "c = dquote")
    case True
    with "2.prems" show ?thesis by (simp add: scanstring.simps)
  next
    case nq: False
    show ?thesis
    proof (cases "c = backslash")
      case True
      with nq "2.prems" obtain e rest where cs: "cs = e # rest"
        by (cases cs) (auto simp: scanstring.simps)
      show ?thesis
      proof (cases "e = CHR ''u''")
        case u: True
        with nq True cs "2.prems" obtain n where n: "decode_uXXXX rest = Some n" "n < 256"
          and p: "prepend (char_of n) (scanstring (drop 4 rest)) = Inr (k, r)"
          by (auto simp: scanstring.simps split: option.splits if_splits)
        from p obtain k' where "scanstring (drop 4 rest) = Inr (k', r)"
          using prepend_shorter by blast
        then have "length r < length (drop 4 rest)"
          using "2.IH"(1)[OF nq True cs u n(1) n(2)] by blast
        with cs show ?thesis by simp
      next
        case nu: False
        with nq True cs "2.prems" obtain ch where ch: "unescape e = Some ch"
          and p: "prepend ch (scanstring rest) = Inr (k, r)"
          by (auto simp: scanstring.simps split: option.splits if_splits)
        from p obtain k' where "scanstring rest = Inr (k', r)"
          using prepend_shorter by blast
        then have "length r < length rest"
          using "2.IH"(2)[OF nq True cs nu ch] by blast
        with cs show ?thesis by simp
      qed
    next
      case nb: False
      with nq "2.prems" have ctl: "\<not> (of_char c :: nat) < 0x20"
        and p: "prepend c (scanstring cs) = Inr (k, r)"
        by (auto simp: scanstring.simps split: if_splits)
      from p obtain k' where "scanstring cs = Inr (k', r)"
        using prepend_shorter by blast
      then have "length r < length cs"
        using "2.IH"(3)[OF nq nb ctl] by blast
      then show ?thesis by simp
    qed
  qed
qed

definition digit_val :: "char \<Rightarrow> nat" where
  "digit_val c = of_char c - 0x30"

definition nat_of_digits :: "string \<Rightarrow> nat" where
  "nat_of_digits ds = foldl (\<lambda>a d. 10 * a + digit_val d) 0 ds"

definition int_digits :: "string \<Rightarrow> string" where
  "int_digits s =
     (case s of [] \<Rightarrow> [] | d # r \<Rightarrow> if d = CHR ''0'' then [d] else takeWhile is_digit s)"

definition has_frac :: "string \<Rightarrow> bool" where
  "has_frac s = (case s of c # d # r \<Rightarrow> c = CHR ''.'' \<and> is_digit d | _ \<Rightarrow> False)"

definition has_exp :: "string \<Rightarrow> bool" where
  "has_exp s =
     (case s of
        [] \<Rightarrow> False
      | c # r \<Rightarrow>
          (c = CHR ''e'' \<or> c = CHR ''E'') \<and>
          (case r of
             [] \<Rightarrow> False
           | d # r2 \<Rightarrow>
               is_digit d \<or>
               ((d = CHR ''+'' \<or> d = CHR ''-'') \<and> (case r2 of [] \<Rightarrow> False | x # r3 \<Rightarrow> is_digit x))))"

definition scan_number :: "string \<Rightarrow> error + int \<times> string" where
  "scan_number s =
     (let neg = (case s of [] \<Rightarrow> False | c # r \<Rightarrow> c = CHR ''-'');
          body = (if neg then drop 1 s else s);
          ds = int_digits body;
          rest = drop (length ds) body
      in if ds = [] then Inl Unsupported
         else if has_frac rest \<or> has_exp rest then Inl Unsupported
         else Inr (if neg then - int (nat_of_digits ds) else int (nat_of_digits ds), rest))"

definition scan_value :: "string \<Rightarrow> error + int \<times> string" where
  "scan_value s =
     (case s of
        [] \<Rightarrow> Inl JSONDecodeError
      | c # r \<Rightarrow> if c = CHR ''-'' \<or> is_digit c then scan_number s else Inl Unsupported)"

lemma scan_value_shorter: "scan_value s = Inr (v, r) \<Longrightarrow> length r \<le> length s"
  by (auto simp: scan_value_def scan_number_def Let_def split: list.splits if_splits)

lemma skip_ws_shorter: "skip_ws s = c # r \<Longrightarrow> length r < length s"
  using length_dropWhile_le[of is_ws s] by (simp add: skip_ws_def)

lemma skip_ws_le: "length (skip_ws s) \<le> length s"
  by (simp add: skip_ws_def length_dropWhile_le)

function members :: "string \<Rightarrow> (string \<times> int) list \<Rightarrow> error + (string \<times> int) list \<times> string" where
  "members s pairs =
     (case scanstring s of
        Inl e \<Rightarrow> Inl e
      | Inr (key, s1) \<Rightarrow>
          (case skip_ws s1 of
             [] \<Rightarrow> Inl JSONDecodeError
           | c # s2 \<Rightarrow>
               if c \<noteq> CHR '':'' then Inl JSONDecodeError
               else (case scan_value (skip_ws s2) of
                       Inl e \<Rightarrow> Inl e
                     | Inr (v, s3) \<Rightarrow>
                         (case skip_ws s3 of
                            [] \<Rightarrow> Inl JSONDecodeError
                          | d # s4 \<Rightarrow>
                              if d = CHR ''}'' then Inr (pairs @ [(key, v)], s4)
                              else if d \<noteq> CHR '','' then Inl JSONDecodeError
                              else (case skip_ws s4 of
                                      [] \<Rightarrow> Inl JSONDecodeError
                                    | q # s5 \<Rightarrow>
                                        if q = dquote then members s5 (pairs @ [(key, v)])
                                        else Inl JSONDecodeError)))))"
  by pat_completeness auto
termination
proof (relation "measure (\<lambda>(s, pairs). length s)", goal_cases)
  case 1
  show ?case by simp
next
  case (2 s pairs x key s1 c s2 y v s3 d s4 q s5)
  from 2 have a: "scanstring s = Inr (key, s1)" by simp
  from 2 have b: "scan_value (skip_ws s2) = Inr (v, s3)" by simp
  have "length s1 < length s" using a by (rule scanstring_shorter)
  moreover have "length s2 < length s1" using 2 skip_ws_shorter[of s1 c s2] by simp
  moreover have "length s3 \<le> length s2"
    using scan_value_shorter[OF b] skip_ws_le[of s2] by simp
  moreover have "length s4 < length s3" using 2 skip_ws_shorter[of s3 d s4] by simp
  moreover have "length s5 < length s4" using 2 skip_ws_shorter[of s4 q s5] by simp
  ultimately show ?case by simp
qed

declare members.simps [simp del]

definition dict_of :: "(string \<times> int) list \<Rightarrow> (string, int) dict" where
  "dict_of pairs = foldl (\<lambda>d kv. AList.update (fst kv) (snd kv) d) [] pairs"

definition json_object :: "string \<Rightarrow> error + (string, int) dict \<times> string" where
  "json_object s =
     (case skip_ws s of
        [] \<Rightarrow> Inl JSONDecodeError
      | c # r \<Rightarrow>
          if c = CHR ''}'' then Inr ([], r)
          else if c = dquote then
            (case members r [] of Inl e \<Rightarrow> Inl e | Inr (pairs, rest) \<Rightarrow> Inr (dict_of pairs, rest))
          else Inl JSONDecodeError)"

definition json_loads :: "string \<Rightarrow> error + (string, int) dict" where
  "json_loads s =
     (case skip_ws s of
        [] \<Rightarrow> Inl JSONDecodeError
      | c # r \<Rightarrow>
          if c = CHR ''{'' then
            (case json_object r of
               Inl e \<Rightarrow> Inl e
             | Inr (d, rest) \<Rightarrow> if skip_ws rest = [] then Inr d else Inl JSONDecodeError)
          else Inl Unsupported)"

text \<open>What may follow an integer in a JSON text without making it a longer number.\<close>

definition ends_number :: "string \<Rightarrow> bool" where
  "ends_number rest \<longleftrightarrow>
     rest = [] \<or> (\<not> is_digit (hd rest) \<and> hd rest \<noteq> CHR ''.'' \<and> hd rest \<noteq> CHR ''e'' \<and> hd rest \<noteq> CHR ''E'')"

section \<open>Properties\<close>

subsection \<open>TopNSelector\<close>

lemma length_sorted_reverse: "length (sorted_reverse xs) = length xs"
  by (simp add: sorted_reverse_def)

text \<open>
  C10. The selector is defined only when the counts map holds at least \<open>n\<close> entries:
  with fewer than \<open>n\<close> entries the lookup \<^verbatim>\<open>counts[n-1]\<close> is out of bounds and the
  selection fails with \<^verbatim>\<open>IndexError\<close>; it does not return all bigrams.
\<close>

theorem get_top_n_too_few_entries:
  "int (length bigram_counts) < n \<Longrightarrow> get_top_n bigram_counts n = Inl IndexError"
  by (simp add: get_top_n_def py_index_def length_sorted_reverse)

theorem get_top_n_too_few_entries_witness:
  "int (length [(''ab'', 3::nat), (''ba'', 1)]) < 3
   \<and> get_top_n [(''ab'', 3::nat), (''ba'', 1)] 3 = Inl IndexError"
  using get_top_n_too_few_entries [of "[(''ab'', 3::nat), (''ba'', 1)]" 3] by simp

lemma sorted_reverse_desc: "sorted_wrt (\<lambda>x y. y \<le> x) (sorted_reverse xs)"
  by (simp add: sorted_reverse_def sorted_wrt_rev)

lemma mset_sorted_reverse: "mset (sorted_reverse xs) = mset xs"
  by (simp add: sorted_reverse_def)

lemma desc_nth_mono:
  "sorted_wrt (\<lambda>x y. y \<le> x) (s::'a::linorder list) \<Longrightarrow> i \<le> j \<Longrightarrow> j < length s \<Longrightarrow> s ! j \<le> s ! i"
proof (cases "i = j")
  case True
  then show ?thesis by simp
next
  case False
  assume "sorted_wrt (\<lambda>x y. y \<le> x) s" "i \<le> j" "j < length s"
  with False show ?thesis by (simp add: sorted_wrt_iff_nth_less)
qed

lemma desc_count_greater:
  assumes "sorted_wrt (\<lambda>x y. y \<le> x) (s::'a::linorder list)" "k < length s"
  shows "length (filter (\<lambda>c. s ! k < c) s) \<le> k"
proof -
  have "filter (\<lambda>c. s ! k < c) (drop k s) = []"
  proof -
    have "\<not> s ! k < c" if "c \<in> set (drop k s)" for c
    proof -
      from that obtain i where "i < length s - k" "c = s ! (k + i)"
        by (auto simp: in_set_conv_nth)
      moreover from this have "k + i < length s" by linarith
      ultimately show ?thesis using desc_nth_mono[OF assms(1), of k "k + i"] by auto
    qed
    then show ?thesis by (auto simp: filter_empty_conv)
  qed
  then have "filter (\<lambda>c. s ! k < c) s = filter (\<lambda>c. s ! k < c) (take k s)"
    by (metis append_take_drop_id filter_append append_Nil2)
  then show ?thesis
    by (metis length_filter_le length_take min.cobounded2 order_trans)
qed

lemma desc_count_geq:
  assumes "sorted_wrt (\<lambda>x y. y \<le> x) (s::'a::linorder list)" "k < length s"
  shows "Suc k \<le> length (filter (\<lambda>c. s ! k \<le> c) s)"
proof -
  have "filter (\<lambda>c. s ! k \<le> c) (take (Suc k) s) = take (Suc k) s"
  proof -
    have "s ! k \<le> c" if "c \<in> set (take (Suc k) s)" for c
    proof -
      from that obtain i where "i < Suc k" "c = s ! i"
        using assms(2) by (auto simp: in_set_conv_nth)
      then show ?thesis using desc_nth_mono[OF assms(1), of i k] assms(2) by auto
    qed
    then show ?thesis by (simp add: filter_id_conv)
  qed
  then have "length (filter (\<lambda>c. s ! k \<le> c) (take (Suc k) s)) = Suc k"
    using assms by simp
  moreover have "length (filter (\<lambda>c. s ! k \<le> c) (take (Suc k) s)) \<le> length (filter (\<lambda>c. s ! k \<le> c) s)"
    by (metis append_take_drop_id filter_append length_append le_add1)
  ultimately show ?thesis by simp
qed

lemma length_filter_mset: "mset xs = mset ys \<Longrightarrow> length (filter P xs) = length (filter P ys)"
  by (metis mset_filter size_mset)

lemma nth_largest_sorted_reverse:
  assumes "0 < n" "n \<le> length cs"
  shows "nth_largest cs n (sorted_reverse cs ! (n - 1))"
proof -
  let ?s = "sorted_reverse cs"
  have len: "n - 1 < length ?s" using assms by (simp add: length_sorted_reverse)
  have d: "sorted_wrt (\<lambda>x y. y \<le> x) ?s" by (rule sorted_reverse_desc)
  have "?s ! (n - 1) \<in> set ?s" using len by simp
  then have m: "?s ! (n - 1) \<in> set cs" by (metis mset_sorted_reverse set_mset_mset)
  have g: "length (filter (\<lambda>c. ?s ! (n - 1) < c) cs) \<le> n - 1"
    using desc_count_greater[OF d len] length_filter_mset[OF mset_sorted_reverse] by metis
  have ge: "Suc (n - 1) \<le> length (filter (\<lambda>c. ?s ! (n - 1) \<le> c) cs)"
    using desc_count_geq[OF d len] length_filter_mset[OF mset_sorted_reverse] by metis
  show ?thesis using m g ge assms by (simp add: nth_largest_def)
qed

lemma get_top_n_in_range:
  assumes "1 \<le> n" "n \<le> int (length bigram_counts)"
  shows "get_top_n bigram_counts n =
           Inr (filter (\<lambda>(bigram, count). sorted_reverse (map snd bigram_counts) ! nat (n - 1) \<le> count)
                  bigram_counts)"
  using assms by (simp add: get_top_n_def py_index_def length_sorted_reverse)

lemma sorted_reverse_mset: "mset xs = mset ys \<Longrightarrow> sorted_reverse xs = sorted_reverse ys"
  by (simp add: sorted_reverse_def properties_for_sort)

lemma length_filter_snd:
  "length (filter (\<lambda>(b, c). P c) bc) = length (filter P (map snd bc))"
  by (induction bc) auto

text \<open>
  C4. For a counts map with at least \<open>n\<close> entries (\<open>n \<ge> 1\<close>), the selector returns exactly
  the entries whose count is at least the \<open>n\<close>-th largest count value, duplicates
  allowed: every tie at the boundary is kept, so at least \<open>n\<close> and possibly more entries
  are returned. The selection depends on the counts only: run again on the same
  entries, in whatever order the dictionary holds them, it selects the same entries.
\<close>

theorem get_top_n_selects_threshold:
  assumes "1 \<le> n" "n \<le> int (length bigram_counts)"
  shows "\<exists>threshold.
      nth_largest (map snd bigram_counts) (nat n) threshold
    \<and> get_top_n bigram_counts n =
        Inr (filter (\<lambda>(bigram, count). threshold \<le> count) bigram_counts)
    \<and> nat n \<le> length (filter (\<lambda>(bigram, count). threshold \<le> count) bigram_counts)
    \<and> (\<forall>again. mset again = mset bigram_counts \<longrightarrow>
         (\<exists>selected. get_top_n again n = Inr selected
            \<and> mset selected =
                mset (filter (\<lambda>(bigram, count). threshold \<le> count) bigram_counts)))"
proof -
  let ?t = "sorted_reverse (map snd bigram_counts) ! nat (n - 1)"
  have k: "nat (n - 1) = nat n - 1" by simp
  have nl: "nth_largest (map snd bigram_counts) (nat n) ?t"
    unfolding k using assms by (intro nth_largest_sorted_reverse) auto
  have sel: "get_top_n bigram_counts n =
      Inr (filter (\<lambda>(bigram, count). ?t \<le> count) bigram_counts)"
    by (rule get_top_n_in_range[OF assms])
  have size: "nat n \<le> length (filter (\<lambda>(bigram, count). ?t \<le> count) bigram_counts)"
    using nl by (simp add: nth_largest_def length_filter_snd)
  have perm: "\<exists>selected. get_top_n again n = Inr selected
            \<and> mset selected = mset (filter (\<lambda>(bigram, count). ?t \<le> count) bigram_counts)"
    if eq: "mset again = mset bigram_counts" for again
  proof -
    have len: "length again = length bigram_counts" using eq by (rule mset_eq_length)
    have "mset (map snd again) = mset (map snd bigram_counts)" using eq by (metis mset_map)
    then have same: "sorted_reverse (map snd again) = sorted_reverse (map snd bigram_counts)"
      by (rule sorted_reverse_mset)
    have "get_top_n again n = Inr (filter (\<lambda>(bigram, count). ?t \<le> count) again)"
      using get_top_n_in_range[of n again] assms len same by simp
    moreover have "mset (filter (\<lambda>(bigram, count). ?t \<le> count) again)
        = mset (filter (\<lambda>(bigram, count). ?t \<le> count) bigram_counts)"
      using eq by (metis mset_filter)
    ultimately show ?thesis by blast
  qed
  show ?thesis using nl sel size perm by blast
qed

theorem get_top_n_selects_threshold_witness:
  "(1::int) \<le> 1 \<and> 1 \<le> int (length [(''aa'', 2::nat), (''ab'', 2), (''bb'', 1)])
   \<and> get_top_n [(''aa'', 2::nat), (''ab'', 2), (''bb'', 1)] 1 = Inr [(''aa'', 2), (''ab'', 2)]
   \<and> (\<exists>threshold.
      nth_largest (map snd [(''aa'', 2::nat), (''ab'', 2), (''bb'', 1)]) (nat 1) threshold
    \<and> get_top_n [(''aa'', 2::nat), (''ab'', 2), (''bb'', 1)] 1 =
        Inr (filter (\<lambda>(bigram, count). threshold \<le> count) [(''aa'', 2::nat), (''ab'', 2), (''bb'', 1)])
    \<and> nat 1 \<le> length (filter (\<lambda>(bigram, count). threshold \<le> count)
                        [(''aa'', 2::nat), (''ab'', 2), (''bb'', 1)]))"
proof -
  have h1: "(1::int) \<le> 1" by simp
  have h2: "1 \<le> int (length [(''aa'', 2::nat), (''ab'', 2), (''bb'', 1)])" by simp
  have v: "get_top_n [(''aa'', 2::nat), (''ab'', 2), (''bb'', 1)] 1 = Inr [(''aa'', 2), (''ab'', 2)]"
    by (simp add: get_top_n_def py_index_def sorted_reverse_def)
  from get_top_n_selects_threshold[OF h1 h2] h1 h2 v show ?thesis by blast
qed

subsection \<open>Encoder\<close>

lemma count_hits_length:
  "count_hits mapping bs ohe = Inr v \<Longrightarrow> length v = length ohe"
  by (induction bs arbitrary: ohe) (auto split: option.splits)

lemma count_hits_in_range:
  assumes "\<And>bigram j. map_of mapping bigram = Some j \<Longrightarrow> 0 \<le> j \<and> j < int (length ohe)"
  shows "count_hits mapping bs ohe =
           Inr (map (\<lambda>j. ohe ! j + hits mapping bs j) [0..<length ohe])"
  using assms
proof (induction bs arbitrary: ohe)
  case Nil
  show ?case by (simp add: hits_def map_nth)
next
  case (Cons b bs)
  show ?case
  proof (cases "map_of mapping b")
    case None
    then have "hits mapping (b # bs) = hits mapping bs" by (simp add: hits_def fun_eq_iff)
    with None Cons show ?thesis by simp
  next
    case (Some j)
    with Cons.prems have r: "0 \<le> j" "j < int (length ohe)" by auto
    then have pos: "np_position (length ohe) j = Some (nat j)" by (simp add: np_position_def)
    let ?ohe = "ohe[nat j := ohe ! nat j + 1]"
    have ih: "count_hits mapping bs ?ohe =
        Inr (map (\<lambda>i. ?ohe ! i + hits mapping bs i) [0..<length ?ohe])"
      using Cons.prems by (intro Cons.IH) simp
    have "?ohe ! i + hits mapping bs i = ohe ! i + hits mapping (b # bs) i"
      if "i < length ohe" for i
    proof (cases "i = nat j")
      case True
      with r Some that show ?thesis by (simp add: hits_def)
    next
      case False
      with r have "j \<noteq> int i" by auto
      with False Some that show ?thesis by (simp add: hits_def)
    qed
    then have "map (\<lambda>i. ?ohe ! i + hits mapping bs i) [0..<length ?ohe]
        = map (\<lambda>i. ohe ! i + hits mapping (b # bs) i) [0..<length ohe]"
      by simp
    with ih Some pos show ?thesis by simp
  qed
qed

lemma count_hits_total:
  assumes "\<And>bigram j. map_of mapping bigram = Some j \<Longrightarrow> - int (length ohe) \<le> j \<and> j < int (length ohe)"
  shows "\<exists>v. count_hits mapping bs ohe = Inr v"
  using assms
proof (induction bs arbitrary: ohe)
  case Nil
  show ?case by simp
next
  case (Cons b bs)
  show ?case
  proof (cases "map_of mapping b")
    case None
    with Cons show ?thesis by simp
  next
    case (Some j)
    with Cons.prems have r: "- int (length ohe) \<le> j" "j < int (length ohe)" by auto
    then have "\<exists>k. np_position (length ohe) j = Some k"
      by (cases "0 \<le> j") (simp_all add: np_position_def)
    then obtain k where pos: "np_position (length ohe) j = Some k" ..
    have "\<exists>v. count_hits mapping bs (ohe[k := ohe ! k + 1]) = Inr v"
      using Cons.prems by (intro Cons.IH) simp
    with Some pos show ?thesis by simp
  qed
qed

lemma valid_indicesD:
  "valid_indices mapping \<Longrightarrow> map_of mapping bigram = Some j \<Longrightarrow> 0 \<le> j \<and> j < int (length mapping)"
  by (auto simp: valid_indices_def list_all_iff dest!: map_of_SomeD)

lemma indexableD:
  "indexable mapping \<Longrightarrow> map_of mapping bigram = Some j
     \<Longrightarrow> - int (length mapping) \<le> j \<and> j < int (length mapping)"
  by (auto simp: indexable_def list_all_iff dest!: map_of_SomeD)

text \<open>
  C5. Under a vocabulary mapping (indices in \<open>[0, D)\<close>), encoding a text raises no error
  and position \<open>j\<close> of the vector is the number of adjacent-character bigrams of the
  text that the mapping sends to \<open>j\<close>; bigrams absent from the mapping add nothing.
  Encoding \<^verbatim>\<open>"aabba"\<close> under \<^verbatim>\<open>{"aa":0,"ab":1,"bb":2}\<close> gives \<^verbatim>\<open>[1,1,1]\<close>.
\<close>

theorem encode_text_counts:
  "(valid_indices mapping \<longrightarrow>
      encode_text mapping t = Inr (map (hits mapping (bigrams t)) [0..<length mapping]))
   \<and> encode_text [(''aa'', 0), (''ab'', 1), (''bb'', 2)] ''aabba'' = Inr [1, 1, 1]"
proof
  show "valid_indices mapping \<longrightarrow>
      encode_text mapping t = Inr (map (hits mapping (bigrams t)) [0..<length mapping])"
  proof
    assume v: "valid_indices mapping"
    have "count_hits mapping (bigrams t) (replicate (length mapping) 0) =
        Inr (map (\<lambda>j. replicate (length mapping) 0 ! j + hits mapping (bigrams t) j)
               [0..<length (replicate (length mapping) 0)])"
      using count_hits_in_range[of mapping "replicate (length mapping) 0" "bigrams t"] valid_indicesD[OF v] by simp
    then show "encode_text mapping t = Inr (map (hits mapping (bigrams t)) [0..<length mapping])"
      by (simp add: encode_text_def cong: map_cong)
  qed
  show "encode_text [(''aa'', 0), (''ab'', 1), (''bb'', 2)] ''aabba'' = Inr [1, 1, 1]"
    by (simp add: encode_text_def bigrams_def np_position_def)
qed


theorem encode_text_counts_witness:
  "valid_indices [(''aa'', 0), (''bb'', 1)]
   \<and> encode_text [(''aa'', 0), (''bb'', 1)] ''aabb''
       = Inr (map (hits [(''aa'', 0), (''bb'', 1)] (bigrams ''aabb'')) [0..<length [(''aa'', 0::int), (''bb'', 1)]])
   \<and> map (hits [(''aa'', 0), (''bb'', 1)] (bigrams ''aabb'')) [0..<length [(''aa'', 0::int), (''bb'', 1)]]
       = [1, 1]"
proof -
  have v: "valid_indices [(''aa'', 0), (''bb'', 1)]"
    by (simp add: valid_indices_def)
  have h: "map (hits [(''aa'', 0), (''bb'', 1)] (bigrams ''aabb'')) [0..<length [(''aa'', 0::int), (''bb'', 1)]]
       = [1, 1]"
    by (simp add: hits_def bigrams_def upt_rec)
  from encode_text_counts[of "[(''aa'', 0), (''bb'', 1)]" "''aabb''"] v h show ?thesis by simp
qed

text \<open>
  C6. Every vector encoded under a mapping of size \<open>D\<close> has length exactly \<open>D\<close>, whatever
  the text, and the row built from it has four label fields and \<open>D\<close> values; a vector
  is produced for every text whenever the mapping's indices can index an array of
  length \<open>D\<close>.
\<close>

theorem encode_text_length:
  "(\<forall>ohe. encode_text mapping t = Inr ohe \<longrightarrow>
      length ohe = length mapping \<and> length (repr_fields r ohe) = 4 + length mapping)
   \<and> (indexable mapping \<longrightarrow> (\<exists>ohe. encode_text mapping t = Inr ohe))"
proof (intro conjI allI impI)
  fix ohe
  assume "encode_text mapping t = Inr ohe"
  then have "length ohe = length (replicate (length mapping) (0::nat))"
    unfolding encode_text_def Let_def by (rule count_hits_length)
  then show "length ohe = length mapping" by simp
  then show "length (repr_fields r ohe) = 4 + length mapping"
    by (simp add: repr_fields_def)
next
  assume i: "indexable mapping"
  have "\<exists>v. count_hits mapping (bigrams t) (replicate (length mapping) 0) = Inr v"
    using count_hits_total[of mapping "replicate (length mapping) 0" "bigrams t"] indexableD[OF i]
    by simp
  then show "\<exists>ohe. encode_text mapping t = Inr ohe"
    by (simp add: encode_text_def)
qed

theorem encode_text_length_witness:
  "indexable [(''aa'', 0), (''bb'', 1)]
   \<and> encode_text [(''aa'', 0), (''bb'', 1)] ''aabbzz aabb'' = Inr [2, 2]
   \<and> length [2::nat, 2] = length [(''aa'', 0::int), (''bb'', 1)]"
proof -
  have i: "indexable [(''aa'', 0), (''bb'', 1)]"
    by (simp add: indexable_def)
  have e: "encode_text [(''aa'', 0), (''bb'', 1)] ''aabbzz aabb'' = Inr [2, 2]"
    by (simp add: encode_text_def bigrams_def np_position_def)
  from encode_text_length[of "[(''aa'', 0), (''bb'', 1)]" "''aabbzz aabb''"] i e
  show ?thesis by simp
qed

text \<open>
  C7. When the mapping path does not exist, the encoder raises an exception that names
  the missing bigram-to-dim mapping and the file system is left as it was: no mapping
  is generated and no output file is created.
\<close>

theorem gen_bigram_repr_missing_mapping:
  "fs path_mapping = None \<Longrightarrow>
   gen_bigram_repr csv_reader json_load fs path_in path_out path_mapping =
     (Inl (Exception ''Bigram-to-dim-mapping not found. Please generate the mapping first!''), fs)"
  by (simp add: gen_bigram_repr_def load_mapping_def)

theorem gen_bigram_repr_missing_mapping_witness:
  "[''in.csv'' \<mapsto> ''5,aabb,aabb,0,0,0,src''] ''mapping.json'' = None
   \<and> gen_bigram_repr (\<lambda>contents. []) (\<lambda>contents. Inr [])
         [''in.csv'' \<mapsto> ''5,aabb,aabb,0,0,0,src''] ''in.csv'' ''out.csv'' ''mapping.json''
       = (Inl (Exception ''Bigram-to-dim-mapping not found. Please generate the mapping first!''),
          [''in.csv'' \<mapsto> ''5,aabb,aabb,0,0,0,src''])
   \<and> [''in.csv'' \<mapsto> ''5,aabb,aabb,0,0,0,src''] ''out.csv'' = None"
proof -
  have h: "[''in.csv'' \<mapsto> ''5,aabb,aabb,0,0,0,src''] ''mapping.json'' = None" by simp
  from h gen_bigram_repr_missing_mapping
         [where fs = "[''in.csv'' \<mapsto> ''5,aabb,aabb,0,0,0,src'']" and path_mapping = "''mapping.json''"]
  show ?thesis by simp
qed

subsection \<open>Buffered output of the encoder\<close>

text \<open>
  What the loop writes. A row is appended to \<^verbatim>\<open>write_list\<close> only in the
  \<^verbatim>\<open>else\<close> branch of the flush test, so the row whose index triggers a flush is
  dropped; the buffer is written only when such an index comes, so a corpus of at
  most 10000 rows leaves the output empty; and nothing writes the buffer after the
  loop.
\<close>

lemma gen_step_flush_drops_row:
  assumes "unpack_row line = Some r" "encode_text mapping (text' r) = Inr ohe"
    and "i mod 10000 = 0" "write_list s \<noteq> []"
  shows "gen_step mapping (i, line) s =
           Inr \<lparr>write_list = [], written = written s @ join ''\<newline>'' (write_list s)\<rparr>"
  using assms by (simp add: gen_step_def)

lemma gen_step_written:
  assumes "i mod 10000 \<noteq> 0 \<or> write_list s = []" "gen_step mapping (i, line) s = Inr s'"
  shows "written s' = written s"
  using assms by (auto simp: gen_step_def split: option.splits sum.splits if_splits)

lemma gen_loop_no_flush:
  "\<forall>(i, line) \<in> set ils. i mod 10000 \<noteq> 0 \<Longrightarrow>
   written (fst (gen_loop mapping ils s)) = written s"
proof (induction ils arbitrary: s)
  case Nil
  show ?case by simp
next
  case (Cons il ils)
  obtain i line where il: "il = (i, line)" by (cases il)
  show ?case
  proof (cases "gen_step mapping il s")
    case (Inl e)
    then show ?thesis by simp
  next
    case (Inr s')
    with Cons.prems il have "written s' = written s"
      using gen_step_written[of i s mapping line s'] by simp
    moreover have "written (fst (gen_loop mapping ils s')) = written s'"
      using Cons.prems by (intro Cons.IH) simp
    ultimately show ?thesis using Inr by simp
  qed
qed

lemma encode_rows_small_corpus_unwritten:
  assumes "length rows \<le> 10000"
  shows "written (fst (encode_rows mapping rows)) = []"
proof (cases rows)
  case Nil
  then show ?thesis by (simp add: encode_rows_def)
next
  case (Cons row rest)
  let ?init = "\<lparr>write_list = [], written = []\<rparr>"
  have rest: "\<forall>(i, line) \<in> set (enumerate 1 rest). i mod 10000 \<noteq> 0"
    using assms Cons by (auto simp: in_set_enumerate_eq)
  show ?thesis
  proof (cases "gen_step mapping (0, row) ?init")
    case (Inl e)
    with Cons show ?thesis by (simp add: encode_rows_def)
  next
    case (Inr s')
    then have "written s' = written ?init"
      using gen_step_written[of 0 ?init mapping row s'] by simp
    moreover have "written (fst (gen_loop mapping (enumerate 1 rest) s')) = written s'"
      using rest by (rule gen_loop_no_flush)
    ultimately show ?thesis using Inr Cons by (simp add: encode_rows_def)
  qed
qed

lemma gen_bigram_repr_output:
  assumes "load_mapping json_load fs path_mapping = Inr mapping" "fs path_in = Some contents"
  shows "snd (gen_bigram_repr csv_reader json_load fs path_in path_out path_mapping) path_out =
     Some (written (fst (encode_rows mapping
        (csv_reader (if path_in = path_out then [] else contents)))))"
  using assms by (simp add: gen_bigram_repr_def Let_def)

text \<open>
  C1. One well-formed record, encoded under \<^verbatim>\<open>{"aa":0,"bb":1}\<close>: its row
  \<^verbatim>\<open>5, 0, 0, 0, 1, 1\<close> is built and stays in the buffer, the text written to the
  output is empty.
\<close>

theorem encode_rows_single_record_unwritten:
  "encode_rows [(''aa'', 0), (''bb'', 1)] [[''5'', ''aabb'', ''aabb'', ''0'', ''0'', ''0'', ''src'']]
     = (\<lparr>write_list = [''5, 0, 0, 0, 1, 1''], written = []\<rparr>, None)"
  by (simp add: encode_rows_def gen_step_def unpack_row_def encode_text_def bigrams_def
      np_position_def repr_line_def repr_fields_def str_nat.simps digit_def)

subsection \<open>Label loader\<close>

text \<open>
  The counters \<^verbatim>\<open>num_zeros\<close> and \<^verbatim>\<open>num_ones\<close> are never incremented, so for a
  positive limit no test of the loop ever holds: every row of five fields is accepted.
\<close>

lemma load_loop_accepts_every_row:
  "0 < goal \<Longrightarrow> num_ones s = 0 \<Longrightarrow> num_zeros s = 0 \<Longrightarrow>
   id_to_label (load_loop goal rows s) = foldl accept_row (id_to_label s) rows"
proof (induction rows arbitrary: s)
  case Nil
  show ?case by simp
next
  case (Cons row rows)
  show ?case
  proof (cases "unpack_label_row row")
    case None
    then have "accept_row (id_to_label s) row = id_to_label s" by (simp add: accept_row_def)
    with None Cons show ?thesis by simp
  next
    case (Some f)
    obtain tid body msk label corpus where f: "f = (tid, body, msk, label, corpus)"
      by (cases f) auto
    let ?s = "s\<lparr>id_to_label := AList.update tid label (id_to_label s),
                  line_counter := line_counter s + 1\<rparr>"
    have "id_to_label (load_loop goal rows ?s) = foldl accept_row (id_to_label ?s) rows"
      using Cons.prems by (intro Cons.IH) simp_all
    moreover have "accept_row (id_to_label s) row = AList.update tid label (id_to_label s)"
      using Some f by (simp add: accept_row_def)
    ultimately show ?thesis using Some f Cons.prems
      by (simp add: str_eq_int_def)
  qed
qed

lemma load_id_to_label_positive_limit:
  "0 < l \<Longrightarrow> load_id_to_label rows (Some l) = Inr (foldl accept_row [] rows)"
  by (simp add: load_id_to_label_def load_loop_accepts_every_row)


text \<open>
  C3. With limit 2 the quota is one id per class; of three label rows with the labels
  0, 1, 0 the loader accepts all three, two of them of the zero class, and the third
  row is still scanned after both quotas are met.
\<close>

theorem load_id_to_label_exceeds_quota:
  "load_id_to_label
     [[''a'', ''t'', ''m'', ''0'', ''c''], [''b'', ''t'', ''m'', ''1'', ''c''],
      [''c'', ''t'', ''m'', ''0'', ''c'']] (Some 2)
     = Inr [(''a'', ''0''), (''b'', ''1''), (''c'', ''0'')]
   \<and> accepted ''0'' [(''a'', ''0''), (''b'', ''1''), (''c'', ''0'')] = 2
   \<and> quota 2 = 1"
  by (simp add: load_id_to_label_def unpack_label_row_def str_eq_int_def accepted_def quota_def)

subsection \<open>BigramCounter\<close>











subsection \<open>VocabularyBuilder\<close>

lemma update_fresh: "k \<notin> fst ` set al \<Longrightarrow> AList.update k v al = al @ [(k, v)]"
  by (induction al) auto

lemma assign_dims_fresh:
  "distinct bs \<Longrightarrow> set bs \<inter> fst ` set acc = {} \<Longrightarrow>
   assign_dims bs (int i) acc = acc @ zip bs (map int [i..<i + length bs])"
proof (induction bs arbitrary: i acc)
  case Nil
  show ?case by simp
next
  case (Cons b bs)
  from Cons.prems have fresh: "b \<notin> fst ` set acc" by auto
  have "assign_dims bs (int (Suc i)) (acc @ [(b, int i)])
      = (acc @ [(b, int i)]) @ zip bs (map int [Suc i..<Suc i + length bs])"
    using Cons.prems by (intro Cons.IH) auto
  moreover have "[i..<i + length (b # bs)] = i # [Suc i..<Suc i + length bs]"
    using upt_conv_Cons[of i "i + length (b # bs)"] by simp
  ultimately show ?case using fresh by (simp add: update_fresh add.commute)
qed

text \<open>
  C2, as the code has it. The indices \<open>0..D-1\<close> are assigned to the union of the two
  key sets in the order in which the set is iterated: the keys of the mapping are the
  union, each once, and the indices are \<open>0, 1, ..., D-1\<close> in that order. The mapping is
  the sorted assignment of the specification when the set iterates in sorted order.
\<close>

theorem get_bigram_to_dim_mapping_iteration_order:
  assumes "set_iteration iter (set (map fst top_n_ch) \<union> set (map fst top_n_other))"
  shows "get_bigram_to_dim_mapping iter top_n_ch top_n_other
           = zip (iter (set (map fst top_n_ch) \<union> set (map fst top_n_other)))
                 (map int [0..<card (set (map fst top_n_ch) \<union> set (map fst top_n_other))])
       \<and> set (map fst (get_bigram_to_dim_mapping iter top_n_ch top_n_other))
           = set (map fst top_n_ch) \<union> set (map fst top_n_other)
       \<and> distinct (map fst (get_bigram_to_dim_mapping iter top_n_ch top_n_other))
       \<and> map snd (get_bigram_to_dim_mapping iter top_n_ch top_n_other)
           = map int [0..<card (set (map fst top_n_ch) \<union> set (map fst top_n_other))]
       \<and> (iter (set (map fst top_n_ch) \<union> set (map fst top_n_other))
            = sorted_list_of_set (set (map fst top_n_ch) \<union> set (map fst top_n_other))
          \<longrightarrow> get_bigram_to_dim_mapping iter top_n_ch top_n_other
               = sorted_index_assignment top_n_ch top_n_other)"
proof -
  let ?U = "set (map fst top_n_ch) \<union> set (map fst top_n_other)"
  let ?m = "get_bigram_to_dim_mapping iter top_n_ch top_n_other"
  from assms have it: "set (iter ?U) = ?U" "distinct (iter ?U)"
    by (simp_all add: set_iteration_def)
  then have len: "length (iter ?U) = card ?U" by (metis distinct_card)
  have "assign_dims (iter ?U) (int 0) [] = [] @ zip (iter ?U) (map int [0..<0 + length (iter ?U)])"
    using it(2) by (intro assign_dims_fresh) simp_all
  then have m: "?m = zip (iter ?U) (map int [0..<card ?U])"
    using len by (simp add: get_bigram_to_dim_mapping_def)
  have keys: "map fst ?m = iter ?U" and vals: "map snd ?m = map int [0..<card ?U]"
    using len by (simp_all add: m)
  have "?m = sorted_index_assignment top_n_ch top_n_other"
    if "iter ?U = sorted_list_of_set ?U"
    using that len m by (simp add: sorted_index_assignment_def Let_def)
  with m keys vals it show ?thesis by simp
qed

theorem get_bigram_to_dim_mapping_iteration_order_witness:
  "set_iteration descending (set (map fst [(''ab'', 3::nat)]) \<union> set (map fst [(''ba'', 2::nat)]))
   \<and> get_bigram_to_dim_mapping descending [(''ab'', 3::nat)] [(''ba'', 2::nat)]
       = zip (descending (set (map fst [(''ab'', 3::nat)]) \<union> set (map fst [(''ba'', 2::nat)])))
             (map int [0..<card (set (map fst [(''ab'', 3::nat)]) \<union> set (map fst [(''ba'', 2::nat)]))])
   \<and> map snd (get_bigram_to_dim_mapping descending [(''ab'', 3::nat)] [(''ba'', 2::nat)])
       = map int [0..<card (set (map fst [(''ab'', 3::nat)]) \<union> set (map fst [(''ba'', 2::nat)]))]"
proof -
  have h: "set_iteration descending
      (set (map fst [(''ab'', 3::nat)]) \<union> set (map fst [(''ba'', 2::nat)]))"
    by code_simp
  from get_bigram_to_dim_mapping_iteration_order[OF h] h show ?thesis by blast
qed

text \<open>
  C2 as stated fails: nothing sorts the union. For the selected sets \<^verbatim>\<open>{"ab"}\<close> and
  \<^verbatim>\<open>{"ba"}\<close> a run in which the set iterates as \<^verbatim>\<open>"ba", "ab"\<close> maps \<^verbatim>\<open>"ba"\<close> to 0,
  where the sorted assignment, and a run in which the set iterates the other way
  round, map \<^verbatim>\<open>"ab"\<close> to 0.
\<close>

theorem get_bigram_to_dim_mapping_unsorted_counterexample:
  "set_iteration descending (set (map fst [(''ab'', 3::nat)]) \<union> set (map fst [(''ba'', 2::nat)]))
   \<and> get_bigram_to_dim_mapping descending [(''ab'', 3::nat)] [(''ba'', 2::nat)]
       = [(''ba'', 0), (''ab'', 1)]
   \<and> sorted_index_assignment [(''ab'', 3::nat)] [(''ba'', 2::nat)] = [(''ab'', 0), (''ba'', 1)]
   \<and> set_iteration ascending (set (map fst [(''ab'', 3::nat)]) \<union> set (map fst [(''ba'', 2::nat)]))
   \<and> get_bigram_to_dim_mapping ascending [(''ab'', 3::nat)] [(''ba'', 2::nat)]
       = [(''ab'', 0), (''ba'', 1)]"
  by code_simp

subsection \<open>MappingStore: the round trip through the mapping file\<close>

text \<open>Strings: scanning an escaped string up to its closing quote gives the string back.\<close>

lemma hex_digits_table: "list_all (\<lambda>d. hex_val (hex_digit d) = Some d) [0..<16]"
  by code_simp

lemma hex_val_hex_digit: "d < 16 \<Longrightarrow> hex_val (hex_digit d) = Some d"
  using hex_digits_table by (simp add: list_all_iff)

lemma decode_uXXXX_hex:
  assumes "n < 256"
  shows "decode_uXXXX ([hex_digit (n div 4096), hex_digit (n div 256 mod 16),
                        hex_digit (n div 16 mod 16), hex_digit (n mod 16)] @ rest) = Some n"
proof -
  have "n div 4096 = 0" "n div 256 mod 16 = 0" "n div 16 mod 16 = n div 16"
    using assms by simp_all
  moreover have "n div 16 < 16" "n mod 16 < 16" using assms by simp_all
  ultimately show ?thesis
    by (simp add: decode_uXXXX_def hex_val_hex_digit)
qed

lemma of_char_less_256: "(of_char c :: nat) < 256"
proof -
  have "(of_char c :: nat) mod 256 = of_char c" by simp
  then show ?thesis by (metis mod_less_divisor zero_less_numeral)
qed

lemma scanstring_u:
  "decode_uXXXX hs = Some n \<Longrightarrow> n < 256 \<Longrightarrow>
   scanstring (backslash # CHR ''u'' # hs) = prepend (char_of n) (scanstring (drop 4 hs))"
  by (simp add: scanstring.simps dquote_def backslash_def)

lemma scanstring_escape: "scanstring (escape_char c @ rest) = prepend c (scanstring rest)"
proof -
  consider (q) "c = dquote" | (b) "c = backslash" | (n) "c = CHR 0x0A" | (r) "c = CHR 0x0D"
    | (t) "c = CHR 0x09" | (bs) "c = CHR 0x08" | (f) "c = CHR 0x0C"
    | (plain) "c \<noteq> dquote" "c \<noteq> backslash" "0x20 \<le> (of_char c :: nat)" "(of_char c :: nat) \<le> 0x7E"
    | (esc) "c \<noteq> dquote" "c \<noteq> backslash" "c \<noteq> CHR 0x0A" "c \<noteq> CHR 0x0D" "c \<noteq> CHR 0x09"
        "c \<noteq> CHR 0x08" "c \<noteq> CHR 0x0C" "\<not> (0x20 \<le> (of_char c :: nat) \<and> (of_char c :: nat) \<le> 0x7E)"
    by blast
  then show ?thesis
  proof cases
    case q
    then show ?thesis
      by (simp add: escape_char_def scanstring.simps unescape_def dquote_def backslash_def)
  next
    case b
    then show ?thesis
      by (simp add: escape_char_def scanstring.simps unescape_def dquote_def backslash_def)
  next
    case n
    then show ?thesis
      by (simp add: escape_char_def scanstring.simps unescape_def dquote_def backslash_def)
  next
    case r
    then show ?thesis
      by (simp add: escape_char_def scanstring.simps unescape_def dquote_def backslash_def)
  next
    case t
    then show ?thesis
      by (simp add: escape_char_def scanstring.simps unescape_def dquote_def backslash_def)
  next
    case bs
    then show ?thesis
      by (simp add: escape_char_def scanstring.simps unescape_def dquote_def backslash_def)
  next
    case f
    then show ?thesis
      by (simp add: escape_char_def scanstring.simps unescape_def dquote_def backslash_def)
  next
    case plain
    then have "escape_char c = [c]"
      by (auto simp: escape_char_def)
    moreover have "scanstring (c # rest) = prepend c (scanstring rest)"
      using plain by (simp add: scanstring.simps)
    ultimately show ?thesis by simp
  next
    case esc
    let ?n = "of_char c :: nat"
    have e: "escape_char c = [backslash, CHR ''u''] @ [hex_digit (?n div 4096), hex_digit (?n div 256 mod 16),
                hex_digit (?n div 16 mod 16), hex_digit (?n mod 16)]"
      using esc by (simp add: escape_char_def Let_def)
    have d: "decode_uXXXX ([hex_digit (?n div 4096), hex_digit (?n div 256 mod 16),
                hex_digit (?n div 16 mod 16), hex_digit (?n mod 16)] @ rest) = Some ?n"
      by (rule decode_uXXXX_hex) (rule of_char_less_256)
    have "scanstring (backslash # CHR ''u'' # ([hex_digit (?n div 4096), hex_digit (?n div 256 mod 16),
                hex_digit (?n div 16 mod 16), hex_digit (?n mod 16)] @ rest))
          = prepend (char_of ?n) (scanstring (drop 4 ([hex_digit (?n div 4096), hex_digit (?n div 256 mod 16),
                hex_digit (?n div 16 mod 16), hex_digit (?n mod 16)] @ rest)))"
      using d of_char_less_256[of c] by (rule scanstring_u)
    then have "scanstring (backslash # CHR ''u'' # ([hex_digit (?n div 4096), hex_digit (?n div 256 mod 16),
                hex_digit (?n div 16 mod 16), hex_digit (?n mod 16)] @ rest))
          = prepend c (scanstring rest)"
      by simp
    with e show ?thesis by simp
  qed
qed

lemma scanstring_encoded:
  "scanstring (concat (map escape_char s) @ dquote # rest) = Inr (s, rest)"
proof (induction s)
  case Nil
  show ?case by (simp add: scanstring.simps)
next
  case (Cons c s)
  have "scanstring (escape_char c @ (concat (map escape_char s) @ dquote # rest))
      = prepend c (scanstring (concat (map escape_char s) @ dquote # rest))"
    by (rule scanstring_escape)
  with Cons show ?case by (simp add: prepend_def)
qed

lemma digits_table:
  "list_all (\<lambda>d. is_digit (digit d) \<and> digit_val (digit d) = d \<and> (digit d = CHR ''0'') = (d = 0)) [0..<10]"
  by code_simp

lemma digit_props:
  assumes "d < 10"
  shows "is_digit (digit d)" "digit_val (digit d) = d" "(digit d = CHR ''0'') = (d = 0)"
  using digits_table assms by (simp_all add: list_all_iff)

lemma str_nat_digits: "list_all is_digit (str_nat n)"
proof (induction n rule: str_nat.induct)
  case (1 n)
  show ?case
  proof (cases "n < 10")
    case True
    then show ?thesis by (subst str_nat.simps) (simp add: digit_props)
  next
    case False
    with 1 show ?thesis by (subst str_nat.simps) (simp add: digit_props)
  qed
qed

lemma str_nat_nonempty: "str_nat n \<noteq> []"
  by (subst str_nat.simps) simp

lemma hd_str_nat: "n \<noteq> 0 \<Longrightarrow> hd (str_nat n) \<noteq> CHR ''0''"
proof (induction n rule: str_nat.induct)
  case (1 n)
  show ?case
  proof (cases "n < 10")
    case True
    with "1.prems" show ?thesis by (subst str_nat.simps) (simp add: digit_props)
  next
    case False
    then have "n div 10 \<noteq> 0" by simp
    with 1 False have "hd (str_nat (n div 10)) \<noteq> CHR ''0''" by simp
    with False show ?thesis
      by (subst str_nat.simps) (simp add: str_nat_nonempty)
  qed
qed

lemma nat_of_digits_snoc: "nat_of_digits (ds @ [d]) = 10 * nat_of_digits ds + digit_val d"
  by (simp add: nat_of_digits_def)

lemma nat_of_digits_str_nat: "nat_of_digits (str_nat n) = n"
proof (induction n rule: str_nat.induct)
  case (1 n)
  show ?case
  proof (cases "n < 10")
    case True
    then show ?thesis by (subst str_nat.simps) (simp add: nat_of_digits_def digit_props)
  next
    case False
    with 1 have "nat_of_digits (str_nat (n div 10)) = n div 10" by simp
    with False show ?thesis
      by (subst str_nat.simps) (simp add: nat_of_digits_snoc digit_props)
  qed
qed

lemma str_nat_zero: "str_nat 0 = ''0''"
  by (simp add: str_nat.simps digit_def)

lemma takeWhile_digits:
  assumes "list_all is_digit ds" "rest = [] \<or> \<not> is_digit (hd rest)"
  shows "takeWhile is_digit (ds @ rest) = ds"
proof -
  have "takeWhile is_digit rest = []" using assms(2) by (cases rest) auto
  then show ?thesis using assms(1) by (simp add: takeWhile_append2 list_all_iff)
qed

lemma int_digits_str_nat:
  assumes "rest = [] \<or> \<not> is_digit (hd rest)"
  shows "int_digits (str_nat n @ rest) = str_nat n"
proof (cases "n = 0")
  case True
  then show ?thesis by (simp add: str_nat_zero int_digits_def)
next
  case False
  obtain d ds where s: "str_nat n = d # ds"
    using str_nat_nonempty[of n] by (cases "str_nat n") auto
  with hd_str_nat[OF False] have "d \<noteq> CHR ''0''" by simp
  then have "int_digits (str_nat n @ rest) = takeWhile is_digit (str_nat n @ rest)"
    using s by (simp add: int_digits_def)
  then show ?thesis using takeWhile_digits[OF str_nat_digits assms] by simp
qed

text \<open>Integers: the decimal digits of \<open>str_nat\<close> are read back to the same number.\<close>

lemma ends_number_no_float: "ends_number rest \<Longrightarrow> \<not> has_frac rest \<and> \<not> has_exp rest"
  by (cases rest) (auto simp: ends_number_def has_frac_def has_exp_def split: list.splits)

lemma minus_not_digit: "\<not> is_digit (CHR ''-'')"
  by (simp add: is_digit_def)

lemma hd_str_nat_digit: "is_digit (hd (str_nat n))"
  using str_nat_digits[of n] str_nat_nonempty[of n] by (cases "str_nat n") auto

lemma scan_number_nat:
  assumes "ends_number rest"
  shows "scan_number (str_nat n @ rest) = Inr (int n, rest)"
proof -
  obtain d ds where s: "str_nat n = d # ds"
    using str_nat_nonempty[of n] by (cases "str_nat n") auto
  with hd_str_nat_digit[of n] minus_not_digit have nm: "d \<noteq> CHR ''-''" by auto
  have i: "int_digits (str_nat n @ rest) = str_nat n"
    using assms by (intro int_digits_str_nat) (auto simp: ends_number_def)
  have "scan_number (d # ds @ rest) = Inr (int n, rest)"
    using nm i ends_number_no_float[OF assms] str_nat_nonempty[of n] s
    by (simp add: scan_number_def nat_of_digits_str_nat[of n, unfolded s] del: str_nat.simps)
  with s show ?thesis by simp
qed

lemma scan_number_int:
  assumes "ends_number rest"
  shows "scan_number (str_int i @ rest) = Inr (i, rest)"
proof (cases "i < 0")
  case False
  then show ?thesis using scan_number_nat[OF assms, of "nat i"] by (simp add: str_int_def)
next
  case True
  let ?n = "nat (- i)"
  have i: "int_digits (str_nat ?n @ rest) = str_nat ?n"
    using assms by (intro int_digits_str_nat) (auto simp: ends_number_def)
  have "scan_number (CHR ''-'' # str_nat ?n @ rest) = Inr (- int ?n, rest)"
    using i ends_number_no_float[OF assms] str_nat_nonempty[of ?n]
    by (simp add: scan_number_def nat_of_digits_str_nat)
  with True show ?thesis by (simp add: str_int_def)
qed

lemma str_int_start:
  "\<exists>c cs. str_int i = c # cs \<and> (c = CHR ''-'' \<or> is_digit c) \<and> \<not> is_ws c"
proof (cases "i < 0")
  case True
  then show ?thesis by (simp add: str_int_def is_ws_def)
next
  case False
  obtain d ds where s: "str_nat (nat i) = d # ds"
    using str_nat_nonempty[of "nat i"] by (cases "str_nat (nat i)") auto
  with hd_str_nat_digit[of "nat i"] have "is_digit d" by simp
  moreover from this have "\<not> is_ws d" by (auto simp: is_digit_def is_ws_def)
  ultimately show ?thesis using False s by (simp add: str_int_def)
qed

lemma scan_value_int:
  assumes "ends_number rest"
  shows "scan_value (str_int i @ rest) = Inr (i, rest)"
proof -
  obtain c cs where s: "str_int i = c # cs" "c = CHR ''-'' \<or> is_digit c"
    using str_int_start by blast
  then have "scan_value (str_int i @ rest) = scan_number (str_int i @ rest)"
    by (auto simp: scan_value_def)
  then show ?thesis using scan_number_int[OF assms] by simp
qed

lemma skip_ws_keep: "\<not> is_ws c \<Longrightarrow> skip_ws (c # s) = c # s"
  by (simp add: skip_ws_def)

lemma skip_ws_space: "skip_ws (CHR '' '' # s) = skip_ws s"
  by (simp add: skip_ws_def is_ws_def)

lemma skip_ws_str_int: "skip_ws (str_int v @ rest) = str_int v @ rest"
proof -
  obtain c cs where "str_int v = c # cs" "\<not> is_ws c" using str_int_start by blast
  then show ?thesis by (simp add: skip_ws_keep)
qed

lemma not_ws_simps:
  "\<not> is_ws (CHR '':'')" "\<not> is_ws (CHR '','')" "\<not> is_ws (CHR ''}'')" "\<not> is_ws dquote"
  "\<not> is_ws (CHR ''{'')"
  by (simp_all add: is_ws_def dquote_def)

lemma ends_number_simps: "ends_number (CHR ''}'' # s)" "ends_number (CHR '','' # s)"
  by (simp_all add: ends_number_def is_digit_def)

lemma members_last:
  "members (concat (map escape_char k) @ dquote # '': '' @ str_int v @ CHR ''}'' # tail) pairs
     = Inr (pairs @ [(k, v)], tail)"
proof -
  have a: "scanstring (concat (map escape_char k) @ dquote # '': '' @ str_int v @ CHR ''}'' # tail)
      = Inr (k, '': '' @ str_int v @ CHR ''}'' # tail)"
    by (rule scanstring_encoded)
  have b: "skip_ws ('': '' @ str_int v @ CHR ''}'' # tail) = CHR '':'' # ('' '' @ str_int v @ CHR ''}'' # tail)"
    by (simp add: skip_ws_keep not_ws_simps)
  have c: "skip_ws ('' '' @ str_int v @ CHR ''}'' # tail) = str_int v @ CHR ''}'' # tail"
    by (simp add: skip_ws_space skip_ws_str_int)
  have d: "scan_value (str_int v @ CHR ''}'' # tail) = Inr (v, CHR ''}'' # tail)"
    by (rule scan_value_int) (rule ends_number_simps)
  have e: "skip_ws (CHR ''}'' # tail) = CHR ''}'' # tail"
    by (simp add: skip_ws_keep not_ws_simps)
  show ?thesis
    by (subst members.simps) (simp only: a b c d e sum.case prod.case list.case if_True if_False simp_thms)
qed

lemma members_more:
  "members (concat (map escape_char k) @ dquote # '': '' @ str_int v @ '', '' @ dquote # nxt) pairs
     = members nxt (pairs @ [(k, v)])"
proof -
  have a: "scanstring (concat (map escape_char k) @ dquote # '': '' @ str_int v @ '', '' @ dquote # nxt)
      = Inr (k, '': '' @ str_int v @ '', '' @ dquote # nxt)"
    by (rule scanstring_encoded)
  have b: "skip_ws ('': '' @ str_int v @ '', '' @ dquote # nxt)
      = CHR '':'' # ('' '' @ str_int v @ '', '' @ dquote # nxt)"
    by (simp add: skip_ws_keep not_ws_simps)
  have c: "skip_ws ('' '' @ str_int v @ '', '' @ dquote # nxt) = str_int v @ '', '' @ dquote # nxt"
    by (simp add: skip_ws_space skip_ws_str_int)
  have d: "scan_value (str_int v @ '', '' @ dquote # nxt) = Inr (v, '', '' @ dquote # nxt)"
    by (rule scan_value_int) (simp add: ends_number_simps)
  have e: "skip_ws ('', '' @ dquote # nxt) = CHR '','' # ('' '' @ dquote # nxt)"
    by (simp add: skip_ws_keep not_ws_simps)
  have f: "skip_ws ('' '' @ dquote # nxt) = dquote # nxt"
    by (simp add: skip_ws_space skip_ws_keep not_ws_simps)
  have g: "CHR '','' \<noteq> CHR ''}''" by simp
  show ?thesis
    by (subst members.simps)
       (simp only: a b c d e f g sum.case prod.case list.case if_True if_False simp_thms)
qed

lemma json_item_eq:
  "json_item (k, v) = dquote # concat (map escape_char k) @ dquote # '': '' @ str_int v"
  by (simp add: json_item_def encode_basestring_ascii_def)

lemma members_items:
  "\<exists>body. join '', '' (map json_item (kv # kvs)) = dquote # body
     \<and> (\<forall>pairs tail. members (body @ CHR ''}'' # tail) pairs = Inr (pairs @ kv # kvs, tail))"
proof (induction kvs arbitrary: kv)
  case Nil
  obtain k v where kv: "kv = (k, v)" by (cases kv)
  let ?body = "concat (map escape_char k) @ dquote # '': '' @ str_int v"
  have "join '', '' (map json_item [kv]) = dquote # ?body"
    by (simp add: kv json_item_eq)
  moreover have "members (?body @ CHR ''}'' # tail) pairs = Inr (pairs @ [kv], tail)" for pairs tail
    using members_last[of k v tail pairs] by (simp add: kv)
  ultimately show ?case by blast
next
  case (Cons y ys)
  obtain k v where kv: "kv = (k, v)" by (cases kv)
  from Cons[of y] obtain body' where j: "join '', '' (map json_item (y # ys)) = dquote # body'"
    and m: "\<And>pairs tail. members (body' @ CHR ''}'' # tail) pairs = Inr (pairs @ y # ys, tail)"
    by blast
  let ?body = "concat (map escape_char k) @ dquote # '': '' @ str_int v @ '', '' @ dquote # body'"
  have "join '', '' (map json_item (kv # y # ys))
      = json_item kv @ '', '' @ join '', '' (map json_item (y # ys))"
    by simp
  then have "join '', '' (map json_item (kv # y # ys)) = dquote # ?body"
    by (simp only: j kv json_item_eq) simp
  moreover have "members (?body @ CHR ''}'' # tail) pairs = Inr (pairs @ kv # y # ys, tail)"
    for pairs tail
  proof -
    have "members (?body @ CHR ''}'' # tail) pairs
        = members (body' @ CHR ''}'' # tail) (pairs @ [(k, v)])"
      using members_more[of k v "body' @ CHR ''}'' # tail" pairs] by simp
    then show ?thesis by (simp add: m kv)
  qed
  ultimately show ?case by blast
qed

lemma dict_of_fresh:
  "distinct (map fst (acc @ ps)) \<Longrightarrow>
   foldl (\<lambda>d kv. AList.update (fst kv) (snd kv) d) acc ps = acc @ ps"
proof (induction ps arbitrary: acc)
  case Nil
  show ?case by simp
next
  case (Cons p ps)
  from Cons.prems have "fst p \<notin> fst ` set acc" by auto
  then have "AList.update (fst p) (snd p) acc = acc @ [p]"
    by (simp add: update_fresh)
  moreover have "foldl (\<lambda>d kv. AList.update (fst kv) (snd kv) d) (acc @ [p]) ps = (acc @ [p]) @ ps"
    using Cons.prems by (intro Cons.IH) simp
  ultimately show ?case by simp
qed

lemma dict_of_distinct: "distinct (map fst d) \<Longrightarrow> dict_of d = d"
  using dict_of_fresh[of "[]" d] by (simp add: dict_of_def)

theorem json_round_trip:
  assumes "distinct (map fst d)"
  shows "json_loads (json_dumps d) = Inr d"
proof (cases d)
  case Nil
  then show ?thesis
    by (simp add: json_dumps_def json_loads_def json_object_def skip_ws_def is_ws_def)
next
  case (Cons kv kvs)
  from members_items[of kv kvs] obtain body
    where j: "join '', '' (map json_item (kv # kvs)) = dquote # body"
      and m: "\<And>pairs tail. members (body @ CHR ''}'' # tail) pairs = Inr (pairs @ kv # kvs, tail)"
    by blast
  have dumps: "json_dumps d = CHR ''{'' # dquote # body @ ''}''"
    using j Cons by (simp add: json_dumps_def)
  have nq: "dquote \<noteq> CHR ''}''" by (simp add: dquote_def)
  have obj: "json_object (dquote # body @ ''}'') = Inr (dict_of d, [])"
    using m[of "[]" "[]"] Cons nq by (simp add: json_object_def skip_ws_keep not_ws_simps)
  have "json_loads (json_dumps d) = Inr (dict_of d)"
    by (simp add: dumps json_loads_def skip_ws_keep not_ws_simps obj) (simp add: skip_ws_def)
  with assms show ?thesis by (simp add: dict_of_distinct)
qed

text \<open>
  C9. Saving a vocabulary mapping with \<^verbatim>\<open>dump_bigram_to_dim_mapping\<close> and loading the
  file again as \<^verbatim>\<open>gen_bigram_repr\<close> does gives back exactly the same bigram-to-index
  pairs, for every mapping (a dictionary: its keys are pairwise distinct), dense or
  not.
\<close>

theorem dump_load_round_trip:
  assumes "distinct (map fst bigram_to_dim_mapping)"
  shows "load_mapping json_loads
           (dump_bigram_to_dim_mapping json_dumps bigram_to_dim_mapping path fs) path
         = Inr bigram_to_dim_mapping"
  using assms by (simp add: load_mapping_def dump_bigram_to_dim_mapping_def json_round_trip)

lemma json_dumps_example: \<open>json_dumps [(''aa'', 0), (''bb'', 1)] = ''{"aa": 0, "bb": 1}''\<close>
  by code_simp

theorem dump_load_round_trip_witness:
  \<open>distinct (map fst [(''aa'', 0::int), (''bb'', 1)])
   \<and> dump_bigram_to_dim_mapping json_dumps [(''aa'', 0), (''bb'', 1)] ''mapping.json'' Map.empty
         ''mapping.json'' = Some ''{"aa": 0, "bb": 1}''
   \<and> load_mapping json_loads
         (dump_bigram_to_dim_mapping json_dumps [(''aa'', 0), (''bb'', 1)] ''mapping.json'' Map.empty)
         ''mapping.json''
       = Inr [(''aa'', 0), (''bb'', 1)]\<close>
proof -
  have h: "distinct (map fst [(''aa'', 0::int), (''bb'', 1)])" by simp
  have t: \<open>dump_bigram_to_dim_mapping json_dumps [(''aa'', 0), (''bb'', 1)] ''mapping.json'' Map.empty
         ''mapping.json'' = Some ''{"aa": 0, "bb": 1}''\<close>
    by (simp add: dump_bigram_to_dim_mapping_def json_dumps_example)
  from dump_load_round_trip[OF h, of "''mapping.json''" Map.empty] h t show ?thesis by blast
qed

end
